theory Spec2Isabelle
  imports Main
begin

section \<open>The frontmatter parser of \<^verbatim>\<open>skills/skill-crafting/scripts/frontmatter.py\<close>\<close>

text \<open>
  The development embeds the three functions of \<^verbatim>\<open>frontmatter.py\<close>
  (\<^verbatim>\<open>parse_frontmatter\<close>, \<^verbatim>\<open>parse_simple_yaml\<close>, \<^verbatim>\<open>parse_list_item\<close>) together with the
  Python string operations and regular expressions they call.

  A Python \<^verbatim>\<open>str\<close> is modelled as a \<open>string\<close>; a \<open>char\<close> stands for one code point in
  the range 0..255. Python values are dynamically typed: the parser returns strings,
  dictionaries (insertion ordered) and lists, so all three live in one datatype.
\<close>

subsection \<open>Python values\<close>

datatype pyval =
    Str string
  | Dict "(string \<times> pyval) list"
  | List "pyval list"

text \<open>\<^verbatim>\<open>d[k] = v\<close> on an insertion-ordered dictionary: an existing key keeps its position.\<close>

fun dict_set :: "string \<Rightarrow> pyval \<Rightarrow> (string \<times> pyval) list \<Rightarrow> (string \<times> pyval) list" where
  "dict_set k v [] = [(k, v)]"
| "dict_set k v (p # ps) = (if fst p = k then (k, v) # ps else p # dict_set k v ps)"

subsection \<open>Characters\<close>

definition nl :: char where "nl = CHR 0x0A"
definition tab :: char where "tab = CHR 0x09"
definition dquote :: char where "dquote = CHR 0x22"
definition squote :: char where "squote = CHR 0x27"

text \<open>\<^verbatim>\<open>str.isspace\<close> on one code point below 256; \<^verbatim>\<open>str.strip\<close> and the regex class
  \<^verbatim>\<open>\s\<close> (on a \<^verbatim>\<open>str\<close> pattern) both use it.\<close>

definition is_space :: "char \<Rightarrow> bool" where
  "is_space c = (c \<in> set [CHR 0x09, CHR 0x0A, CHR 0x0B, CHR 0x0C, CHR 0x0D,
                           CHR 0x1C, CHR 0x1D, CHR 0x1E, CHR 0x1F, CHR 0x20,
                           CHR 0x85, CHR 0xA0])"

text \<open>The regex classes \<^verbatim>\<open>[a-zA-Z]\<close> and \<^verbatim>\<open>[a-zA-Z0-9_-]\<close>.\<close>

definition is_alpha :: "char \<Rightarrow> bool" where
  "is_alpha c = (let n = (of_char c :: nat) in (97 \<le> n \<and> n \<le> 122) \<or> (65 \<le> n \<and> n \<le> 90))"

definition is_ident :: "char \<Rightarrow> bool" where
  "is_ident c = (is_alpha c \<or> (let n = (of_char c :: nat) in 48 \<le> n \<and> n \<le> 57)
                  \<or> c = CHR ''_'' \<or> c = CHR ''-'')"

subsection \<open>Python string operations\<close>

definition startswith :: "string \<Rightarrow> string \<Rightarrow> bool" where
  "startswith s p = (take (length p) s = p)"

definition endswith_char :: "string \<Rightarrow> char \<Rightarrow> bool" where
  "endswith_char s c = (s \<noteq> [] \<and> last s = c)"

definition lstrip :: "string \<Rightarrow> string" where
  "lstrip s = dropWhile is_space s"

definition strip :: "string \<Rightarrow> string" where
  "strip s = rev (dropWhile is_space (rev (dropWhile is_space s)))"

text \<open>\<^verbatim>\<open>s.split(c)\<close> for a one-character separator: always at least one piece.\<close>

fun split_on :: "char \<Rightarrow> string \<Rightarrow> string list" where
  "split_on c [] = [[]]"
| "split_on c (x # xs) =
     (if x = c then [] # split_on c xs
      else (case split_on c xs of [] \<Rightarrow> [[x]] | l # ls \<Rightarrow> (x # l) # ls))"

text \<open>\<^verbatim>\<open>s.split()\<close>: the maximal runs of non-whitespace characters; \<open>cur\<close> is the run
  being read.\<close>

fun split_ws_from :: "string \<Rightarrow> string \<Rightarrow> string list" where
  "split_ws_from cur [] = (if cur = [] then [] else [cur])"
| "split_ws_from cur (c # cs) =
     (if is_space c then (if cur = [] then split_ws_from [] cs else cur # split_ws_from [] cs)
      else split_ws_from (cur @ [c]) cs)"

definition split_ws :: "string \<Rightarrow> string list" where
  "split_ws s = split_ws_from [] s"

text \<open>\<^verbatim>\<open>sep.join(xs)\<close> for a one-character separator.\<close>

fun join :: "char \<Rightarrow> string list \<Rightarrow> string" where
  "join c [] = []"
| "join c [x] = x"
| "join c (x # y # ys) = x @ c # join c (y # ys)"

text \<open>\<^verbatim>\<open>s.partition(':')\<close>: the text before the first colon and the text after it.\<close>

definition partition_colon :: "string \<Rightarrow> string \<times> string" where
  "partition_colon s =
     (takeWhile (\<lambda>c. c \<noteq> CHR '':'') s, drop 1 (dropWhile (\<lambda>c. c \<noteq> CHR '':'') s))"

text \<open>\<^verbatim>\<open>s.index(sub, start)\<close>: the lowest position at or after \<open>start\<close> where \<open>sub\<close>
  occurs, \<open>None\<close> for \<^verbatim>\<open>ValueError\<close>.\<close>

fun find_sub :: "string \<Rightarrow> string \<Rightarrow> nat option" where
  "find_sub sub [] = (if sub = [] then Some 0 else None)"
| "find_sub sub (c # cs) =
     (if startswith (c # cs) sub then Some 0 else map_option Suc (find_sub sub cs))"

definition index_from :: "string \<Rightarrow> string \<Rightarrow> nat \<Rightarrow> nat option" where
  "index_from s sub start =
     (if start \<le> length s then map_option (\<lambda>k. k + start) (find_sub sub (drop start s))
      else None)"

text \<open>\<^verbatim>\<open>value[1:-1]\<close>.\<close>

definition slice_1_m1 :: "string \<Rightarrow> string" where
  "slice_1_m1 s = butlast (tl s)"

text \<open>Lines 99-102 and 131-134: a value that starts and ends with the same quote
  character loses its first and last character.\<close>

definition unquote :: "string \<Rightarrow> string" where
  "unquote v =
     (if startswith v [dquote] \<and> endswith_char v dquote then slice_1_m1 v
      else if startswith v [squote] \<and> endswith_char v squote then slice_1_m1 v
      else v)"

subsection \<open>The regular expressions\<close>

text \<open>
  Every regex of the parser is applied to a piece of a line produced by
  \<^verbatim>\<open>yaml_text.split('\n')\<close>, which holds no newline, so \<^verbatim>\<open>.\<close> matches every character and
  \<^verbatim>\<open>$\<close> the end of the string. None of the patterns has a choice left for backtracking
  except the last \<^verbatim>\<open>\s*\<close> of the item pattern, which is written out.

  \<^verbatim>\<open>re.match(r'^([a-zA-Z][a-zA-Z0-9_-]*)\s*:\s*(.*)$', s)\<close>: groups 1 and 2.
\<close>

definition key_match :: "string \<Rightarrow> (string \<times> string) option" where
  "key_match s =
     (case s of
        [] \<Rightarrow> None
      | c # cs \<Rightarrow>
          if is_alpha c then
            (case dropWhile is_space (dropWhile is_ident cs) of
               [] \<Rightarrow> None
             | d # ds \<Rightarrow>
                 if d = CHR '':'' then Some (c # takeWhile is_ident cs, dropWhile is_space ds)
                 else None)
          else None)"

text \<open>\<^verbatim>\<open>re.match(r'^\s+([a-zA-Z][a-zA-Z0-9_-]*)\s*:\s*(.*)$', s)\<close>.\<close>

definition nested_match :: "string \<Rightarrow> (string \<times> string) option" where
  "nested_match s =
     (case s of
        [] \<Rightarrow> None
      | c # cs \<Rightarrow> if is_space c then key_match (dropWhile is_space cs) else None)"

text \<open>\<^verbatim>\<open>re.match(r'^\s*-\s*(.+)$', s)\<close>: group 1. When only whitespace follows the dash,
  \<^verbatim>\<open>\s*\<close> gives its last character back to \<^verbatim>\<open>(.+)\<close>.\<close>

definition item_match :: "string \<Rightarrow> string option" where
  "item_match s =
     (case dropWhile is_space s of
        [] \<Rightarrow> None
      | d # r \<Rightarrow>
          if d = CHR ''-'' then
            (if dropWhile is_space r \<noteq> [] then Some (dropWhile is_space r)
             else if r \<noteq> [] then Some [last r]
             else None)
          else None)"

subsection \<open>\<^verbatim>\<open>parse_list_item\<close>\<close>

text \<open>The body of the \<^verbatim>\<open>for part in parts\<close> loop (lines 161-164).\<close>

definition list_item_step :: "(string \<times> pyval) list \<Rightarrow> string \<Rightarrow> (string \<times> pyval) list" where
  "list_item_step result part =
     (if CHR '':'' \<in> set part then
        (case partition_colon part of
           (key, val) \<Rightarrow> if val \<noteq> [] then dict_set (strip key) (Str (strip val)) result
                         else result)
      else result)"

definition parse_list_item :: "string \<Rightarrow> pyval" where
  "parse_list_item item_text0 =
     (let item_text = strip item_text0 in
      if CHR '':'' \<in> set item_text then
        (let result = foldl list_item_step [] (split_ws item_text) in
         if result \<noteq> [] then Dict result else Str item_text)
      else Str item_text)"

subsection \<open>\<^verbatim>\<open>parse_simple_yaml\<close>\<close>

text \<open>\<^verbatim>\<open>len(line) - len(line.lstrip())\<close> (lines 73 and 94).\<close>

definition indent_of :: "string \<Rightarrow> nat" where
  "indent_of line = length line - length (lstrip line)"

text \<open>The innermost loop (lines 123-127), which collects the lines whose stripped text
  starts with a dash. It returns the cursor and the items.\<close>

function list_loop :: "string list \<Rightarrow> nat \<Rightarrow> pyval list \<Rightarrow> nat \<times> pyval list" where
  "list_loop lines i list_items =
     (if i < length lines \<and> startswith (strip (lines ! i)) ''-'' then
        (case item_match (strip (lines ! i)) of
           Some g \<Rightarrow> list_loop lines (i + 1) (list_items @ [parse_list_item g])
         | None \<Rightarrow> list_loop lines (i + 1) list_items)
      else (i, list_items))"
  by pat_completeness auto
termination
  by (relation "measure (\<lambda>(lines, i, list_items). length lines - i)") auto

declare list_loop.simps [simp del]

text \<open>The loop over the lines that follow a key with an empty value (lines 108-138).
  It returns the cursor and the nested dictionary; \<open>None\<close> stands for a loop that
  never ends.\<close>

partial_function (option) nested_loop ::
  "string list \<Rightarrow> nat \<Rightarrow> (string \<times> pyval) list \<Rightarrow> (nat \<times> (string \<times> pyval) list) option" where
  "nested_loop lines i nested =
     (if i < length lines then
        (if strip (lines ! i) = [] then nested_loop lines (i + 1) nested
         else if startswith (lines ! i) ''  '' \<or> startswith (lines ! i) [tab] then
           (case nested_match (lines ! i) of
              Some (nested_key, g) \<Rightarrow>
                (if startswith (strip g) ''-'' then
                   nested_loop lines (fst (list_loop lines i []))
                     (dict_set nested_key (List (snd (list_loop lines i []))) nested)
                 else nested_loop lines (i + 1) (dict_set nested_key (Str (unquote (strip g))) nested))
            | None \<Rightarrow> nested_loop lines (i + 1) nested)
         else Some (i, nested))
      else Some (i, nested))"

text \<open>The state of the main loop besides the cursor: \<^verbatim>\<open>result\<close>, \<^verbatim>\<open>current_key\<close>,
  \<^verbatim>\<open>multiline_value\<close> and \<^verbatim>\<open>multiline_indent\<close>.\<close>

record pstate =
  result :: "(string \<times> pyval) list"
  current_key :: "string option"
  multiline_value :: "string list"
  multiline_indent :: nat

text \<open>The test \<^verbatim>\<open>current_key and multiline_value\<close> (lines 66, 72 and 146): a key that is
  neither \<^verbatim>\<open>None\<close> nor empty, and a list that is not empty.\<close>

definition in_multiline :: "pstate \<Rightarrow> bool" where
  "in_multiline st =
     ((case current_key st of None \<Rightarrow> False | Some k \<Rightarrow> k \<noteq> []) \<and> multiline_value st \<noteq> [])"

text \<open>Lines 80-82 and 147: the collected lines become the value of \<^verbatim>\<open>current_key\<close>.\<close>

definition end_multiline :: "pstate \<Rightarrow> pstate" where
  "end_multiline st =
     st\<lparr>result := dict_set (the (current_key st)) (Str (strip (join nl (multiline_value st)))) (result st),
        current_key := None, multiline_value := []\<rparr>"

text \<open>The main loop (lines 60-143) followed by lines 146-149.\<close>

partial_function (option) parse_loop ::
  "string list \<Rightarrow> nat \<Rightarrow> pstate \<Rightarrow> (string \<times> pyval) list option" where
  "parse_loop lines i st =
     (if i < length lines then
        (if strip (lines ! i) = [] \<or> startswith (strip (lines ! i)) ''#'' then
           parse_loop lines (i + 1)
             (if in_multiline st then st\<lparr>multiline_value := multiline_value st @ [[]]\<rparr> else st)
         else if in_multiline st \<and> multiline_indent st \<le> indent_of (lines ! i) then
           parse_loop lines (i + 1)
             (st\<lparr>multiline_value := multiline_value st @ [drop (multiline_indent st) (lines ! i)]\<rparr>)
         else
           (case key_match (strip (lines ! i)) of
              None \<Rightarrow> parse_loop lines (i + 1) (if in_multiline st then end_multiline st else st)
            | Some (key, g) \<Rightarrow>
                (if strip g = ''|'' \<or> strip g = ''>'' then
                   parse_loop lines (i + 1)
                     ((if in_multiline st then end_multiline st else st)
                        \<lparr>current_key := Some key, multiline_value := [],
                         multiline_indent := indent_of (lines ! i) + 2\<rparr>)
                 else if unquote (strip g) = [] then
                   (case nested_loop lines (i + 1) [] of
                      None \<Rightarrow> None
                    | Some (i', nested) \<Rightarrow>
                        parse_loop lines i'
                          ((if in_multiline st then end_multiline st else st)
                             \<lparr>result := dict_set key (Dict nested)
                                 (result (if in_multiline st then end_multiline st else st))\<rparr>))
                 else
                   parse_loop lines (i + 1)
                     ((if in_multiline st then end_multiline st else st)
                        \<lparr>result := dict_set key (Str (unquote (strip g)))
                            (result (if in_multiline st then end_multiline st else st))\<rparr>))))
      else Some (result (if in_multiline st then end_multiline st else st)))"

declare nested_loop.simps [code]
declare parse_loop.simps [code]

definition init_state :: pstate where
  "init_state = \<lparr>result = [], current_key = None, multiline_value = [], multiline_indent = 0\<rparr>"

definition parse_simple_yaml :: "string \<Rightarrow> (string \<times> pyval) list option" where
  "parse_simple_yaml yaml_text = parse_loop (split_on nl yaml_text) 0 init_state"

subsection \<open>\<^verbatim>\<open>parse_frontmatter\<close>\<close>

text \<open>The result is the pair \<^verbatim>\<open>(frontmatter_dict, body)\<close>, or \<open>None\<close> when the call never
  returns. \<^verbatim>\<open>ValueError\<close> of \<^verbatim>\<open>content.index\<close> is caught at line 30.\<close>

definition parse_frontmatter :: "string \<Rightarrow> ((string \<times> pyval) list \<times> string) option" where
  "parse_frontmatter content =
     (if \<not> startswith content ''---'' then Some ([], content)
      else
        (case index_from content ''---'' 3 of
           None \<Rightarrow> Some ([], content)
         | Some end_idx \<Rightarrow>
             (case parse_simple_yaml (strip (take (end_idx - 3) (drop 3 content))) of
                None \<Rightarrow> None
              | Some fm \<Rightarrow> Some (fm, strip (drop (end_idx + 3) content)))))"

section \<open>Notions used in the statements\<close>

text \<open>A whitespace-separated token of the form \<^verbatim>\<open>key:value\<close> with a non-empty value: it
  holds a colon and the text after its first colon is not empty. \<open>kv_pairs\<close> lists the
  (key, value) pairs of such tokens of an item text in their order.\<close>

definition kv_token :: "string \<Rightarrow> bool" where
  "kv_token t = (CHR '':'' \<in> set t \<and> snd (partition_colon t) \<noteq> [])"

definition kv_pairs :: "string \<Rightarrow> (string \<times> string) list" where
  "kv_pairs s = map partition_colon (filter kv_token (split_ws s))"

definition put_pair :: "(string \<times> pyval) list \<Rightarrow> string \<times> string \<Rightarrow> (string \<times> pyval) list" where
  "put_pair d p = dict_set (fst p) (Str (snd p)) d"

text \<open>The identifier grammar of keys: a letter, then letters, digits, hyphens and
  underscores.\<close>

definition is_key :: "string \<Rightarrow> bool" where
  "is_key k = (case k of [] \<Rightarrow> False | c # cs \<Rightarrow> is_alpha c \<and> list_all is_ident cs)"

text \<open>A follower is a line the nested loop keeps: a blank line, or a line that starts
  with two spaces or with a tab. \<open>loops_at\<close> singles out the followers on which the
  nested loop stands still: an indented line of the nested-key pattern whose value starts
  with a dash. \<open>nested_step\<close> is what one follower adds to the nested mapping, and
  \<open>nested_of\<close> the nested mapping of a run of followers.\<close>

definition follower :: "string \<Rightarrow> bool" where
  "follower l = (strip l = [] \<or> startswith l ''  '' \<or> startswith l [tab])"

definition loops_at :: "string \<Rightarrow> bool" where
  "loops_at l = ((startswith l ''  '' \<or> startswith l [tab]) \<and>
                 (case nested_match l of None \<Rightarrow> False | Some (k, g) \<Rightarrow> startswith (strip g) ''-''))"

definition nested_step :: "(string \<times> pyval) list \<Rightarrow> string \<Rightarrow> (string \<times> pyval) list" where
  "nested_step d l =
     (case nested_match l of None \<Rightarrow> d | Some (k, g) \<Rightarrow> dict_set k (Str (unquote (strip g))) d)"

definition nested_of :: "string list \<Rightarrow> (string \<times> pyval) list" where
  "nested_of block = foldl nested_step [] block"

text \<open>The shape of a returned mapping: a sequence item is a string or a record of
  strings; a value inside a nested mapping is a string or a list of such items, never a
  mapping; a top-level value is a string or such a nested mapping.\<close>

fun is_str :: "pyval \<Rightarrow> bool" where
  "is_str (Str s) = True"
| "is_str (Dict d) = False"
| "is_str (List xs) = False"

fun item_ok :: "pyval \<Rightarrow> bool" where
  "item_ok (Str s) = True"
| "item_ok (Dict d) = list_all (\<lambda>kv. is_str (snd kv)) d"
| "item_ok (List xs) = False"

fun nested_value_ok :: "pyval \<Rightarrow> bool" where
  "nested_value_ok (Str s) = True"
| "nested_value_ok (Dict d) = False"
| "nested_value_ok (List xs) = list_all item_ok xs"

fun top_value_ok :: "pyval \<Rightarrow> bool" where
  "top_value_ok (Str s) = True"
| "top_value_ok (Dict d) = list_all (\<lambda>kv. nested_value_ok (snd kv)) d"
| "top_value_ok (List xs) = False"

definition shape_ok :: "(string \<times> pyval) list \<Rightarrow> bool" where
  "shape_ok fm = list_all (\<lambda>kv. top_value_ok (snd kv)) fm"

text \<open>The documents the statements below evaluate, each given as its lines.\<close>

definition doc_dash_value :: string where
  "doc_dash_value = join nl [''---'', ''hooks:'', ''  key: - item'', ''---'', '''']"

definition doc_hooks :: string where
  "doc_hooks = join nl [''---'', ''hooks:'', ''  PreToolUse:'',
                        ''    - command: '' @ [dquote] @ ''x'' @ [dquote], ''---'', '''']"

definition doc_block :: string where
  "doc_block = join nl [''---'', ''name: x'', ''description: |'', ''  line one'',
                        ''  line two'', ''---'', ''body text'']"

definition doc_empty_quoted :: string where
  "doc_empty_quoted = join nl [''---'', ''title: '' @ [dquote, dquote], ''---'', '''']"

definition doc_nested :: string where
  "doc_nested = join nl [''---'', ''a:'', ''  b: c'', ''x: 1'', ''---'', '''']"

definition doc_nested_lines :: "string list" where
  "doc_nested_lines = [''name: x'', ''a:'', ''  b:'', ''    c: d'',
                       [tab] @ ''b: '' @ [squote] @ ''e'' @ [squote], [], ''   - item'', ''z: 1'']"


section \<open>Strings and characters\<close>

lemma strip_id: "s \<noteq> [] \<Longrightarrow> \<not> is_space (hd s) \<Longrightarrow> \<not> is_space (last s) \<Longrightarrow> strip s = s"
proof -
  assume a: "s \<noteq> []" "\<not> is_space (hd s)" "\<not> is_space (last s)"
  have 1: "dropWhile is_space s = s" using a by (cases s) auto
  have 2: "dropWhile is_space (rev s) = rev s" using a by (simp add: dropWhile_eq_self_iff hd_rev)
  show ?thesis by (simp add: strip_def 1 2)
qed

lemma strip_no_space: "\<forall>c\<in>set t. \<not> is_space c \<Longrightarrow> strip t = t"
proof (cases "t = []")
  case True
  then show ?thesis by (simp add: strip_def)
next
  case False
  assume "\<forall>c\<in>set t. \<not> is_space c"
  with False have "\<not> is_space (hd t)" "\<not> is_space (last t)" by simp_all
  with False show ?thesis by (simp add: strip_id)
qed

lemma rstrip_Cons:
  "rev (dropWhile P (rev (c # cs))) =
     (if (\<forall>x\<in>set (c # cs). P x) then [] else c # rev (dropWhile P (rev cs)))"
  by (auto simp: dropWhile_append)

lemma strip_hd:
  assumes "dropWhile is_space s = a # r"
  shows "strip s \<noteq> [] \<and> hd (strip s) = a"
proof -
  have "\<not> is_space a" using assms by (metis hd_dropWhile list.distinct(1) list.sel(1))
  then have "rev (dropWhile is_space (rev (a # r))) = a # rev (dropWhile is_space (rev r))"
    unfolding rstrip_Cons by auto
  then show ?thesis by (simp add: strip_def assms)
qed

lemma split_on_no_sep: "c \<notin> set s \<Longrightarrow> split_on c s = [s]"
  by (induction s) auto

lemma split_on_append: "c \<notin> set x \<Longrightarrow> split_on c (x @ c # r) = x # split_on c r"
  by (induction x) auto

lemma split_on_join:
  "ls \<noteq> [] \<Longrightarrow> \<forall>l\<in>set ls. c \<notin> set l \<Longrightarrow> split_on c (join c ls) = ls"
proof (induction c ls rule: join.induct)
  case (1 c)
  then show ?case by simp
next
  case (2 c x)
  then show ?case by (simp add: split_on_no_sep)
next
  case (3 c x y ys)
  then show ?case by (simp add: split_on_append)
qed

lemma space_not_ident: "is_space c \<Longrightarrow> \<not> is_ident c"
  by (auto simp: is_space_def is_ident_def is_alpha_def)

lemma colon_props: "\<not> is_ident CHR '':''" "\<not> is_space CHR '':''" "is_space CHR '' ''"
  by (simp_all add: is_ident_def is_alpha_def is_space_def)

lemma nl_not_ident: "\<not> is_ident nl"
  by (simp add: is_ident_def is_alpha_def nl_def)

lemma startswith_dashes: "startswith s ''---'' = (take 3 s = ''---'')"
  by (simp add: startswith_def eval_nat_numeral)

lemma find_sub_None:
  "(\<forall>j. \<not> startswith (drop j s) sub) \<Longrightarrow> sub \<noteq> [] \<Longrightarrow> find_sub sub s = None"
proof (induction s)
  case Nil
  then show ?case by simp
next
  case (Cons c cs)
  have "\<not> startswith (drop 0 (c # cs)) sub" using Cons.prems(1) by blast
  then have a: "\<not> startswith (c # cs) sub" by simp
  have "\<forall>j. \<not> startswith (drop j cs) sub"
  proof
    fix j
    have "\<not> startswith (drop (Suc j) (c # cs)) sub" using Cons.prems(1) by blast
    then show "\<not> startswith (drop j cs) sub" by simp
  qed
  then have "find_sub sub cs = None" using Cons.IH Cons.prems(2) by blast
  with a show ?case by simp
qed

section \<open>The document splitter\<close>

text \<open>C4: an input whose first three characters are not \<^verbatim>\<open>---\<close> gives the empty mapping
  and the whole input, unchanged, as body.\<close>

theorem parse_frontmatter_no_delimiter:
  "take 3 content \<noteq> ''---'' \<Longrightarrow> parse_frontmatter content = Some ([], content)"
  by (simp add: parse_frontmatter_def startswith_dashes)

theorem parse_frontmatter_no_delimiter_witness:
  "take 3 ''# Title'' \<noteq> ''---'' \<and> parse_frontmatter ''# Title'' = Some ([], ''# Title'')"
  using parse_frontmatter_no_delimiter [of "''# Title''"] by simp

text \<open>C5: an input that starts with \<^verbatim>\<open>---\<close> and holds no further \<^verbatim>\<open>---\<close> at or after
  offset 3 gives the empty mapping and the whole input as body; the \<^verbatim>\<open>ValueError\<close> of the
  search is caught, so the call returns.\<close>

theorem parse_frontmatter_unclosed:
  assumes "take 3 content = ''---''"
    and "\<forall>j\<ge>3. take 3 (drop j content) \<noteq> ''---''"
  shows "parse_frontmatter content = Some ([], content)"
proof -
  have "\<forall>j. \<not> startswith (drop j (drop 3 content)) ''---''"
    using assms(2) by (simp add: startswith_dashes)
  then have "find_sub ''---'' (drop 3 content) = None"
    by (rule find_sub_None) simp
  then show ?thesis
    by (simp add: parse_frontmatter_def index_from_def)
qed

lemma no_dashes_after: "\<forall>j\<ge>3. take 3 (drop j ''---a--'') \<noteq> ''---''"
proof (intro allI impI)
  fix j :: nat assume "3 \<le> j"
  then consider "j = 3" | "j = 4" | "j = 5" | "6 \<le> j" by linarith
  then show "take 3 (drop j ''---a--'') \<noteq> ''---''"
    by cases (simp_all add: eval_nat_numeral)
qed

theorem parse_frontmatter_unclosed_witness:
  "take 3 ''---a--'' = ''---'' \<and> parse_frontmatter ''---a--'' = Some ([], ''---a--'')"
  using parse_frontmatter_unclosed [of "''---a--''"] no_dashes_after by simp

section \<open>Sequence items\<close>

lemma split_ws_from_no_space:
  "\<forall>c\<in>set cur. \<not> is_space c \<Longrightarrow> \<forall>t\<in>set (split_ws_from cur s). \<forall>c\<in>set t. \<not> is_space c"
proof (induction s arbitrary: cur)
  case Nil
  then show ?case by simp
next
  case (Cons a s)
  show ?case
  proof (cases "is_space a")
    case True
    have "\<forall>t\<in>set (split_ws_from [] s). \<forall>c\<in>set t. \<not> is_space c"
      by (rule Cons.IH) simp
    with True Cons.prems show ?thesis by auto
  next
    case False
    have "\<forall>t\<in>set (split_ws_from (cur @ [a]) s). \<forall>c\<in>set t. \<not> is_space c"
      using Cons.prems False by (intro Cons.IH) auto
    with False show ?thesis by simp
  qed
qed

lemma split_ws_from_subset:
  "\<forall>t\<in>set (split_ws_from cur s). set t \<subseteq> set cur \<union> set s"
proof (induction s arbitrary: cur)
  case Nil
  then show ?case by simp
next
  case (Cons a s)
  have 1: "\<forall>t\<in>set (split_ws_from [] s). set t \<subseteq> set s"
    using Cons.IH[of "[]"] by simp
  have 2: "\<forall>t\<in>set (split_ws_from (cur @ [a]) s). set t \<subseteq> set cur \<union> set (a # s)"
    using Cons.IH[of "cur @ [a]"] by auto
  show ?case
  proof (cases "is_space a")
    case True
    with 1 show ?thesis by auto
  next
    case False
    with 2 show ?thesis by simp
  qed
qed

lemma split_ws_from_lstrip: "split_ws_from [] (dropWhile is_space s) = split_ws_from [] s"
  by (induction s) auto

lemma split_ws_from_all_space:
  "\<forall>c\<in>set s. is_space c \<Longrightarrow> split_ws_from cur s = (if cur = [] then [] else [cur])"
  by (induction s arbitrary: cur) auto

lemma split_ws_from_rstrip:
  "split_ws_from cur (rev (dropWhile is_space (rev s))) = split_ws_from cur s"
proof (induction s arbitrary: cur)
  case Nil
  then show ?case by simp
next
  case (Cons c cs)
  show ?case
  proof (cases "\<forall>x\<in>set (c # cs). is_space x")
    case True
    have "rev (dropWhile is_space (rev (c # cs))) = []"
      unfolding rstrip_Cons using True by (rule if_P)
    then show ?thesis
      by (simp only: split_ws_from_all_space[OF True] split_ws_from.simps(1))
  next
    case False
    then show ?thesis
      by (simp only: rstrip_Cons if_False split_ws_from.simps Cons.IH)
  qed
qed

lemma split_ws_strip: "split_ws (strip s) = split_ws s"
  by (simp add: split_ws_def strip_def split_ws_from_rstrip split_ws_from_lstrip)

lemma partition_colon_set:
  "set (fst (partition_colon t)) \<subseteq> set t" "set (snd (partition_colon t)) \<subseteq> set t"
proof -
  show "set (fst (partition_colon t)) \<subseteq> set t"
    by (auto simp: partition_colon_def dest: set_takeWhileD)
  have "set (drop 1 (dropWhile (\<lambda>c. c \<noteq> CHR '':'') t)) \<subseteq> set (dropWhile (\<lambda>c. c \<noteq> CHR '':'') t)"
    by (rule set_drop_subset)
  also have "\<dots> \<subseteq> set t" by (auto dest: set_dropWhileD)
  finally show "set (snd (partition_colon t)) \<subseteq> set t" by (simp add: partition_colon_def)
qed

lemma list_item_step_token:
  assumes "\<forall>c\<in>set t. \<not> is_space c"
  shows "list_item_step d t =
     (if kv_token t then dict_set (fst (partition_colon t)) (Str (snd (partition_colon t))) d else d)"
proof -
  have "strip (fst (partition_colon t)) = fst (partition_colon t)"
    using assms partition_colon_set(1)[of t] by (intro strip_no_space) blast
  moreover have "strip (snd (partition_colon t)) = snd (partition_colon t)"
    using assms partition_colon_set(2)[of t] by (intro strip_no_space) blast
  ultimately show ?thesis
    by (simp add: list_item_step_def kv_token_def case_prod_beta)
qed

lemma foldl_list_item_step:
  "\<forall>t\<in>set ts. \<forall>c\<in>set t. \<not> is_space c \<Longrightarrow>
   foldl list_item_step d ts = foldl put_pair d (map partition_colon (filter kv_token ts))"
  by (induction ts arbitrary: d) (simp_all add: list_item_step_token put_pair_def)

lemma map_of_dict_set: "map_of (dict_set k v d) = (map_of d)(k \<mapsto> v)"
  by (induction d) auto

lemma dict_set_keys: "fst ` set (dict_set k v d) = insert k (fst ` set d)"
  by (induction d) auto

lemma distinct_dict_set: "distinct (map fst d) \<Longrightarrow> distinct (map fst (dict_set k v d))"
  by (induction d) (auto simp: dict_set_keys)

lemma dict_set_nonempty: "dict_set k v d \<noteq> []"
  by (cases d) auto

lemma foldl_put_pair_nonempty: "d \<noteq> [] \<Longrightarrow> foldl put_pair d ps \<noteq> []"
  by (induction ps arbitrary: d) (simp_all add: put_pair_def dict_set_nonempty)

lemma foldl_put_pair_distinct:
  "distinct (map fst d) \<Longrightarrow> distinct (map fst (foldl put_pair d ps))"
  by (induction ps arbitrary: d) (simp_all add: put_pair_def distinct_dict_set)

lemma map_of_foldl_put_pair:
  "map_of (foldl put_pair d ps) k =
     (case map_of (rev ps) k of Some v \<Rightarrow> Some (Str v) | None \<Rightarrow> map_of d k)"
  by (induction ps arbitrary: d)
     (auto simp: put_pair_def map_of_dict_set map_add_def split: option.splits)

text \<open>C9: when the item text holds at least one whitespace-separated token \<^verbatim>\<open>key:value\<close>
  with a non-empty value, \<^verbatim>\<open>parse_list_item\<close> returns a record with one entry per key
  of such a token, bound to the value of the last token carrying that key (all entries
  are strings); with no such token the stripped text is returned as a scalar.\<close>

theorem parse_list_item_record:
  "(kv_pairs s \<noteq> [] \<longrightarrow>
      (\<exists>d. parse_list_item s = Dict d \<and> distinct (map fst d) \<and>
           (\<forall>k. map_of d k = map_option Str (map_of (rev (kv_pairs s)) k)))) \<and>
   (kv_pairs s = [] \<longrightarrow> parse_list_item s = Str (strip s))"
proof -
  let ?ts = "split_ws (strip s)"
  have ns: "\<forall>t\<in>set ?ts. \<forall>c\<in>set t. \<not> is_space c"
    unfolding split_ws_def using split_ws_from_no_space[of "[]"] by auto
  have fold: "foldl list_item_step [] ?ts = foldl put_pair [] (kv_pairs s)"
    using foldl_list_item_step[OF ns] by (simp add: kv_pairs_def split_ws_strip)
  have nocolon: "kv_pairs s = []" if "CHR '':'' \<notin> set (strip s)"
  proof -
    have "\<not> kv_token t" if "t \<in> set ?ts" for t
    proof -
      have "set t \<subseteq> set (strip s)"
        using split_ws_from_subset[of "[]" "strip s"] that by (simp add: split_ws_def)
      with \<open>CHR '':'' \<notin> set (strip s)\<close> show ?thesis by (auto simp: kv_token_def)
    qed
    then have "filter kv_token ?ts = []" by (simp add: filter_empty_conv)
    moreover have "kv_pairs s = map partition_colon (filter kv_token ?ts)"
      by (simp add: kv_pairs_def split_ws_strip)
    ultimately show ?thesis by simp
  qed
  show ?thesis
  proof (cases "kv_pairs s = []")
    case True
    then show ?thesis by (simp add: parse_list_item_def Let_def fold)
  next
    case False
    then obtain p ps where pps: "kv_pairs s = p # ps" by (cases "kv_pairs s") auto
    have ne: "foldl put_pair [] (kv_pairs s) \<noteq> []"
      unfolding pps by (simp add: foldl_put_pair_nonempty put_pair_def dict_set_nonempty)
    have colon: "CHR '':'' \<in> set (strip s)" using False nocolon by blast
    have "parse_list_item s = Dict (foldl put_pair [] (kv_pairs s))"
      using ne colon by (simp add: parse_list_item_def Let_def fold)
    moreover have "distinct (map fst (foldl put_pair [] (kv_pairs s)))"
      by (rule foldl_put_pair_distinct) simp
    moreover have "\<forall>k. map_of (foldl put_pair [] (kv_pairs s)) k
                        = map_option Str (map_of (rev (kv_pairs s)) k)"
      by (simp add: map_of_foldl_put_pair split: option.splits)
    ultimately show ?thesis using False by blast
  qed
qed

theorem parse_list_item_record_witness:
  "kv_pairs ''a:1 b:2 a:3 c'' = [(''a'', ''1''), (''b'', ''2''), (''a'', ''3'')] \<and>
   (\<exists>d. parse_list_item ''a:1 b:2 a:3 c'' = Dict d \<and> distinct (map fst d) \<and>
        map_of d ''a'' = Some (Str ''3'') \<and> map_of d ''b'' = Some (Str ''2'') \<and>
        map_of d ''c'' = None) \<and>
   kv_pairs '' plain item '' = [] \<and> parse_list_item '' plain item '' = Str ''plain item''"
proof -
  have 1: "kv_pairs ''a:1 b:2 a:3 c'' = [(''a'', ''1''), (''b'', ''2''), (''a'', ''3'')]"
    by code_simp
  have 3: "kv_pairs '' plain item '' = []"
    by code_simp
  have 4: "strip '' plain item '' = ''plain item''"
    by code_simp
  obtain d where d: "parse_list_item ''a:1 b:2 a:3 c'' = Dict d" "distinct (map fst d)"
      "\<forall>k. map_of d k = map_option Str (map_of (rev (kv_pairs ''a:1 b:2 a:3 c'')) k)"
    using parse_list_item_record [of "''a:1 b:2 a:3 c''"] 1 by auto
  have "map_of d ''a'' = Some (Str ''3'')" "map_of d ''b'' = Some (Str ''2'')" "map_of d ''c'' = None"
    using d(3) by (simp_all add: 1)
  with d(1,2) have 2: "\<exists>d. parse_list_item ''a:1 b:2 a:3 c'' = Dict d \<and> distinct (map fst d) \<and>
        map_of d ''a'' = Some (Str ''3'') \<and> map_of d ''b'' = Some (Str ''2'') \<and>
        map_of d ''c'' = None"
    by blast
  show ?thesis
    using parse_list_item_record [of "'' plain item ''"] 1 2 3 4 by simp
qed

section \<open>The loops of \<^verbatim>\<open>parse_simple_yaml\<close>\<close>

subsection \<open>Shape of the values built\<close>

lemma list_all_dict_set:
  "P v \<Longrightarrow> list_all (\<lambda>kv. P (snd kv)) d \<Longrightarrow> list_all (\<lambda>kv. P (snd kv)) (dict_set k v d)"
  by (induction d) auto

lemma list_item_step_ok:
  "list_all (\<lambda>kv. is_str (snd kv)) d \<Longrightarrow> list_all (\<lambda>kv. is_str (snd kv)) (list_item_step d t)"
  by (simp add: list_item_step_def list_all_dict_set split: prod.splits)

lemma foldl_list_item_step_ok:
  "list_all (\<lambda>kv. is_str (snd kv)) d \<Longrightarrow> list_all (\<lambda>kv. is_str (snd kv)) (foldl list_item_step d ts)"
  by (induction ts arbitrary: d) (simp_all add: list_item_step_ok)

lemma parse_list_item_ok: "item_ok (parse_list_item s)"
  by (simp add: parse_list_item_def Let_def foldl_list_item_step_ok)

lemma list_loop_ok:
  "list_all item_ok items \<Longrightarrow> list_all item_ok (snd (list_loop lines i items))"
proof (induction lines i items rule: list_loop.induct)
  case (1 lines i list_items)
  show ?case
  proof (cases "i < length lines \<and> startswith (strip (lines ! i)) ''-''")
    case False
    then show ?thesis using "1.prems" by (subst list_loop.simps) auto
  next
    case True
    show ?thesis
    proof (cases "item_match (strip (lines ! i))")
      case None
      have "list_all item_ok (snd (list_loop lines (i + 1) list_items))"
        using "1.IH"(1)[OF True None] "1.prems" by simp
      then show ?thesis using True None by (subst list_loop.simps) simp
    next
      case (Some g)
      have "list_all item_ok (snd (list_loop lines (i + 1) (list_items @ [parse_list_item g])))"
        using "1.IH"(2)[OF True Some] "1.prems" parse_list_item_ok by simp
      then show ?thesis using True Some by (subst list_loop.simps) simp
    qed
  qed
qed

lemma nested_loop_ok:
  "nested_loop lines i nested = Some r \<Longrightarrow>
   list_all (\<lambda>kv. nested_value_ok (snd kv)) nested \<longrightarrow>
   list_all (\<lambda>kv. nested_value_ok (snd kv)) (snd r)"
proof (induction rule: nested_loop.raw_induct[rotated, consumes 1, case_names step])
  case (step f lines i nested r)
  show ?case
  proof
    assume ok: "list_all (\<lambda>kv. nested_value_ok (snd kv)) nested"
    have lst: "nested_value_ok (List (snd (list_loop lines i [])))"
      using list_loop_ok[of "[]" lines i] by simp
    have ok1: "list_all (\<lambda>kv. nested_value_ok (snd kv))
                 (dict_set k (List (snd (list_loop lines i []))) nested)" for k
      using lst ok by (rule list_all_dict_set)
    have ok2: "list_all (\<lambda>kv. nested_value_ok (snd kv)) (dict_set k (Str v) nested)" for k v
      using ok by (intro list_all_dict_set) simp_all
    show "list_all (\<lambda>kv. nested_value_ok (snd kv)) (snd r)"
      using step.hyps ok ok1 ok2
      by (auto split: if_splits option.splits prod.splits dest: step.IH)
  qed
qed

lemma end_multiline_ok: "shape_ok (result st) \<Longrightarrow> shape_ok (result (end_multiline st))"
  by (simp add: shape_ok_def end_multiline_def list_all_dict_set)

lemma flush_ok:
  "shape_ok (result st) \<Longrightarrow> shape_ok (result (if in_multiline st then end_multiline st else st))"
  by (simp add: end_multiline_ok)

lemma shape_ok_set_str: "shape_ok d \<Longrightarrow> shape_ok (dict_set k (Str v) d)"
  by (simp add: shape_ok_def list_all_dict_set)

lemma shape_ok_set_dict:
  "nested_loop lines i [] = Some (j, nested) \<Longrightarrow> shape_ok d \<Longrightarrow> shape_ok (dict_set k (Dict nested) d)"
  using nested_loop_ok[of lines i "[]" "(j, nested)"] by (simp add: shape_ok_def list_all_dict_set)

lemma parse_loop_ok:
  "parse_loop lines i st = Some fm \<Longrightarrow> shape_ok (result st) \<longrightarrow> shape_ok fm"
proof (induction rule: parse_loop.raw_induct[rotated, consumes 1, case_names step])
  case (step f lines i st fm)
  show ?case
  proof
    assume ok: "shape_ok (result st)"
    note ok' = flush_ok[OF ok]
    show "shape_ok fm"
      using step.hyps ok ok'
      by (auto split: if_splits option.splits prod.splits dest!: step.IH
               simp: shape_ok_set_str shape_ok_set_dict)
  qed
qed

text \<open>C10: whenever \<^verbatim>\<open>parse_frontmatter\<close> returns, every top-level value of the mapping is
  a string or a mapping, and every value inside such a mapping is a string or a list (of
  strings and flat records), never a mapping: the nesting depth is at most two.\<close>

theorem parse_frontmatter_shape:
  "parse_frontmatter content = Some (fm, body) \<Longrightarrow> shape_ok fm"
proof -
  assume a: "parse_frontmatter content = Some (fm, body)"
  have "fm = [] \<or> (\<exists>y. parse_simple_yaml y = Some fm)"
    using a by (auto simp: parse_frontmatter_def split: if_splits option.splits)
  then show ?thesis
  proof
    assume "fm = []" then show ?thesis by (simp add: shape_ok_def)
  next
    assume "\<exists>y. parse_simple_yaml y = Some fm"
    then obtain y where "parse_loop (split_on nl y) 0 init_state = Some fm"
      by (auto simp: parse_simple_yaml_def)
    then show ?thesis using parse_loop_ok by (fastforce simp: init_state_def shape_ok_def)
  qed
qed

theorem parse_frontmatter_shape_witness:
  "parse_frontmatter doc_nested
     = Some ([(''a'', Dict [(''b'', Str ''c'')]), (''x'', Str ''1'')], []) \<and>
   shape_ok [(''a'', Dict [(''b'', Str ''c'')]), (''x'', Str ''1'')]"
proof -
  have e: "parse_frontmatter doc_nested
             = Some ([(''a'', Dict [(''b'', Str ''c'')]), (''x'', Str ''1'')], [])"
    by code_simp
  from parse_frontmatter_shape [OF e] e show ?thesis by simp
qed

subsection \<open>The cursor of the nested loop\<close>



lemma key_match_alpha:
  "key_match s = Some (k, g) \<Longrightarrow> s \<noteq> [] \<and> is_alpha (hd s)"
  by (cases s) (auto simp: key_match_def split: if_splits)

text \<open>A line that matches the nested-key pattern starts, once stripped, with a letter:
  the innermost loop, which only takes lines starting with a dash, never takes it.\<close>

lemma nested_match_not_dash:
  assumes "nested_match l = Some (k, g)"
  shows "\<not> startswith (strip l) ''-''"
proof -
  obtain c cs where l: "l = c # cs" "is_space c" "key_match (dropWhile is_space cs) = Some (k, g)"
    using assms by (cases l) (auto simp: nested_match_def split: if_splits)
  obtain a r where ar: "dropWhile is_space cs = a # r" "is_alpha a"
    using key_match_alpha[OF l(3)] by (cases "dropWhile is_space cs") auto
  have "dropWhile is_space l = a # r" using l ar by simp
  then have "strip l \<noteq> [] \<and> hd (strip l) = a" by (rule strip_hd)
  moreover have "a \<noteq> CHR ''-''" using ar(2) by (auto simp: is_alpha_def)
  ultimately show ?thesis by (cases "strip l") (auto simp: startswith_def)
qed

text \<open>Hence the list branch (lines 120-129) leaves the cursor where it is, and the
  nested loop meets the same line again: it never returns.\<close>

lemma nested_loop_diverges:
  assumes "i < length lines" "strip (lines ! i) \<noteq> []"
    "startswith (lines ! i) ''  '' \<or> startswith (lines ! i) [tab]"
    "nested_match (lines ! i) = Some (k, g)" "startswith (strip g) ''-''"
  shows "nested_loop lines i nested = None"
proof -
  have ll: "list_loop lines i [] = (i, [])"
    using nested_match_not_dash[OF assms(4)] by (subst list_loop.simps) simp
  have never: "nested_loop ls j n = Some r \<Longrightarrow> \<not> (ls = lines \<and> j = i)" for ls j n r
  proof (induction rule: nested_loop.raw_induct[rotated, consumes 1, case_names step])
    case (step f ls j n r)
    show ?case
    proof
      assume "ls = lines \<and> j = i"
      then have "f lines i (dict_set k (List []) n) = Some r"
        using step.hyps assms ll by simp
      then show False using step.IH by blast
    qed
  qed
  show ?thesis
  proof (cases "nested_loop lines i nested")
    case None
    then show ?thesis .
  next
    case (Some r)
    then show ?thesis using never[of lines i nested r] by simp
  qed
qed

text \<open>C1 (the claim: every parse returns). It fails: on the document
  \<^verbatim>\<open>---\nhooks:\n  key: - item\n---\n\<close> the nested line \<^verbatim>\<open>  key: - item\<close> has a value that starts
  with a dash, the list branch consumes nothing, and \<^verbatim>\<open>parse_frontmatter\<close> never returns.\<close>

theorem parse_frontmatter_dash_value_diverges:
  "parse_frontmatter doc_dash_value = None"
proof -
  have sw: "startswith doc_dash_value ''---''"
    by code_simp
  have idx: "index_from doc_dash_value ''---'' 3 = Some 25"
    by code_simp
  have hdr: "strip (take (25 - 3) (drop 3 doc_dash_value)) = join nl [''hooks:'', ''  key: - item'']"
    by code_simp
  have lns: "split_on nl (join nl [''hooks:'', ''  key: - item'']) = [''hooks:'', ''  key: - item'']"
    by code_simp
  have l0: "strip ''hooks:'' = ''hooks:''" "key_match ''hooks:'' = Some (''hooks'', [])"
    "\<not> startswith ''hooks:'' ''#''" "unquote (strip []) = []" "strip [] \<noteq> ''|''" "strip [] \<noteq> ''>''"
    by code_simp+
  have l1: "strip ''  key: - item'' \<noteq> []" "startswith ''  key: - item'' ''  ''"
    "nested_match ''  key: - item'' = Some (''key'', ''- item'')" "startswith (strip ''- item'') ''-''"
    by code_simp+
  have "nested_loop [''hooks:'', ''  key: - item''] 1 [] = None"
    by (rule nested_loop_diverges[where k = "''key''" and g = "''- item''"]) (simp_all add: l1)
  then have "parse_loop [''hooks:'', ''  key: - item''] 0 init_state = None"
    by (subst parse_loop.simps) (simp add: l0 in_multiline_def init_state_def)
  then have "parse_simple_yaml (join nl [''hooks:'', ''  key: - item'']) = None"
    by (simp only: parse_simple_yaml_def lns)
  then show ?thesis
    using sw idx hdr by (simp add: parse_frontmatter_def)
qed

section \<open>What the parser returns on the documents of the specification\<close>

text \<open>C2 (the claim: on \<^verbatim>\<open>---\nhooks:\n  PreToolUse:\n    - command: "x"\n---\n\<close> the key
  \<^verbatim>\<open>hooks\<close> is bound to a mapping that binds \<^verbatim>\<open>PreToolUse\<close> to a one-element sequence holding
  the record \<^verbatim>\<open>{"command": "x"}\<close>). It fails: the nested loop binds \<^verbatim>\<open>PreToolUse\<close> to its own
  (empty) value, and the line starting with a dash does not match the nested-key pattern
  and is skipped.\<close>

theorem parse_frontmatter_hooks_document:
  "parse_frontmatter doc_hooks = Some ([(''hooks'', Dict [(''PreToolUse'', Str [])])], [])"
  by code_simp

text \<open>C3 (the claim: a key whose value is \<^verbatim>\<open>|\<close> or \<^verbatim>\<open>>\<close> is bound to the following indented
  lines, so that the block document yields \<^verbatim>\<open>description == "line one\nline two"\<close>). The code
  never collects a line: \<^verbatim>\<open>multiline_value\<close> starts empty and lines 66 and 72 only add to it
  when it is not empty. On the block document \<^verbatim>\<open>description\<close> is not bound at all.\<close>

theorem parse_frontmatter_block_document:
  "parse_frontmatter doc_block = Some ([(''name'', Str ''x'')], ''body text'')"
  by code_simp

text \<open>C6 (the claim: a value that starts and ends with the same quote character and has
  length at least 2 binds its key to the text between the quotes). For the value \<^verbatim>\<open>""\<close>
  the text between the quotes is empty, line 105 takes the key for one without a value,
  and the key is bound to an empty mapping instead of the empty string.\<close>

theorem parse_frontmatter_empty_quoted:
  "parse_frontmatter doc_empty_quoted = Some ([(''title'', Dict [])], [])"
  by code_simp

section \<open>Single header lines\<close>

lemma key_match_line:
  assumes "is_alpha c" "\<forall>x\<in>set cs. is_ident x" "value \<noteq> []" "\<not> is_space (hd value)"
  shows "key_match ((c # cs) @ '': '' @ value) = Some (c # cs, value)"
proof -
  have 1: "dropWhile is_ident (cs @ CHR '':'' # CHR '' '' # value) = CHR '':'' # CHR '' '' # value"
    using assms(2) by (simp add: dropWhile_append3 colon_props)
  have 2: "takeWhile is_ident (cs @ CHR '':'' # CHR '' '' # value) = cs"
    using assms(2) by (simp add: takeWhile_tail colon_props)
  have 3: "dropWhile is_space value = value" using assms(3,4) by (cases "value") auto
  show ?thesis using assms(1) by (simp add: key_match_def 1 2 3 colon_props)
qed

text \<open>A header of one line \<^verbatim>\<open>key: value\<close>, the value not a block indicator and not empty
  once unquoted, binds the key to the unquoted value.\<close>

lemma parse_single_line:
  assumes "is_alpha c" "\<forall>x\<in>set cs. is_ident x" "value \<noteq> []" "nl \<notin> set value"
    "\<not> is_space (hd value)" "\<not> is_space (last value)" "value \<noteq> ''|''" "value \<noteq> ''>''"
    "unquote value \<noteq> []"
  shows "parse_simple_yaml ((c # cs) @ '': '' @ value) = Some [(c # cs, Str (unquote value))]"
proof -
  define line where "line = (c # cs) @ '': '' @ value"
  have ci: "is_ident c" using assms(1) by (simp add: is_ident_def)
  have nonl: "nl \<notin> set line"
    using assms(2,4) ci nl_not_ident by (auto simp: line_def nl_def)
  have lines: "split_on nl line = [line]" using nonl by (rule split_on_no_sep)
  have "\<not> is_space c" using ci space_not_ident by blast
  then have st: "strip line = line"
    using assms(3,6) by (intro strip_id) (auto simp: line_def)
  have sv: "strip value = value" using assms(3,5,6) by (rule strip_id)
  have nc: "\<not> startswith line ''#''"
    using assms(1) by (auto simp: line_def startswith_def is_alpha_def)
  have km: "key_match line = Some (c # cs, value)"
    unfolding line_def using assms(1,2,3,5) by (rule key_match_line)
  have ne: "line \<noteq> []" by (simp add: line_def)
  have "parse_simple_yaml line = Some [(c # cs, Str (unquote value))]"
    unfolding parse_simple_yaml_def lines
    apply (subst parse_loop.simps)
    apply (simp add: st km nc sv ne assms(7,8,9) in_multiline_def init_state_def)
    apply (subst parse_loop.simps)
    apply (simp add: in_multiline_def)
    done
  then show ?thesis by (simp only: line_def)
qed

text \<open>C8: for a key of the identifier grammar and a value that is not empty, holds no
  newline, has no leading or trailing whitespace, is neither \<^verbatim>\<open>|\<close> nor \<^verbatim>\<open>>\<close> and does not
  both start and end with the same quote character, parsing the header line
  \<^verbatim>\<open>key + ": " + value\<close> gives the mapping that binds the key to exactly that value.\<close>

theorem roundtrip_unquoted_scalar:
  assumes "is_key key" and "value \<noteq> []" and "nl \<notin> set value"
    and "\<not> is_space (hd value)" and "\<not> is_space (last value)"
    and "value \<noteq> ''|''" and "value \<noteq> ''>''"
    and "\<not> (hd value = dquote \<and> last value = dquote)"
    and "\<not> (hd value = squote \<and> last value = squote)"
  shows "parse_simple_yaml (key @ '': '' @ value) = Some [(key, Str value)]"
proof -
  obtain c cs where k: "key = c # cs" "is_alpha c" "\<forall>x\<in>set cs. is_ident x"
    using assms(1) by (cases key) (auto simp: is_key_def list_all_iff)
  have uq: "unquote value = value"
    using assms(2,8,9) by (cases "value") (auto simp: unquote_def startswith_def endswith_char_def)
  have "parse_simple_yaml ((c # cs) @ '': '' @ value) = Some [(c # cs, Str (unquote value))]"
    using k(2,3) assms(2-7) by (rule parse_single_line) (simp add: uq assms(2))
  then show ?thesis by (simp only: k(1) uq)
qed

theorem roundtrip_unquoted_scalar_witness:
  "is_key ''name'' \<and>
   parse_simple_yaml (''name'' @ '': '' @ ''my-skill'') = Some [(''name'', Str ''my-skill'')]"
proof -
  have h: "is_key ''name''" "nl \<notin> set ''my-skill''"
    "\<not> is_space (hd ''my-skill'')" "\<not> is_space (last ''my-skill'')"
    "\<not> (hd ''my-skill'' = dquote \<and> last ''my-skill'' = dquote)"
    "\<not> (hd ''my-skill'' = squote \<and> last ''my-skill'' = squote)"
    by code_simp+
  then show ?thesis using roundtrip_unquoted_scalar [of "''name''" "''my-skill''"] by simp
qed

section \<open>Nested mappings\<close>

lemma strip_empty_iff: "strip l = [] \<longleftrightarrow> (\<forall>c\<in>set l. is_space c)"
proof
  assume "strip l = []"
  then have "\<forall>c\<in>set (dropWhile is_space l). is_space c"
    by (simp add: strip_def dropWhile_eq_Nil_conv)
  then have "dropWhile is_space l = []"
    by (metis hd_dropWhile hd_in_set)
  then show "\<forall>c\<in>set l. is_space c" by (simp add: dropWhile_eq_Nil_conv)
next
  assume "\<forall>c\<in>set l. is_space c"
  then have d: "dropWhile is_space l = []" by (simp add: dropWhile_eq_Nil_conv)
  show "strip l = []" by (simp add: strip_def d)
qed

lemma blank_no_match: "strip l = [] \<Longrightarrow> nested_match l = None"
proof -
  assume "strip l = []"
  then have a: "\<forall>c\<in>set l. is_space c" by (simp add: strip_empty_iff)
  show ?thesis
  proof (cases l)
    case Nil
    then show ?thesis by (simp add: nested_match_def)
  next
    case (Cons c cs)
    then have d: "dropWhile is_space cs = []" using a by simp
    show ?thesis unfolding Cons by (simp add: nested_match_def key_match_def d)
  qed
qed

text \<open>One round of the nested loop on a follower whose value does not start with a
  dash: the cursor moves on by one line and the dictionary takes \<open>nested_step\<close>.\<close>

lemma nested_loop_step:
  assumes "i < length lines" "follower (lines ! i)" "\<not> loops_at (lines ! i)"
  shows "nested_loop lines i nested = nested_loop lines (i + 1) (nested_step nested (lines ! i))"
proof (cases "strip (lines ! i) = []")
  case True
  then show ?thesis
    using assms(1) by (subst nested_loop.simps) (simp add: nested_step_def blank_no_match)
next
  case False
  then have pre: "startswith (lines ! i) ''  '' \<or> startswith (lines ! i) [tab]"
    using assms(2) by (simp add: follower_def)
  show ?thesis
  proof (cases "nested_match (lines ! i)")
    case None
    then show ?thesis
      using assms(1) False pre by (subst nested_loop.simps) (simp add: nested_step_def)
  next
    case (Some kg)
    obtain k g where kg: "kg = (k, g)" by (cases kg)
    have "\<not> startswith (strip g) ''-''"
      using assms(3) pre Some kg by (simp add: loops_at_def)
    then show ?thesis
      using assms(1) False pre Some kg by (subst nested_loop.simps) (simp add: nested_step_def)
  qed
qed

text \<open>The nested loop over a whole run of followers, from any cursor, with any lines
  before and after and any dictionary built so far.\<close>

lemma nested_loop_block:
  assumes "\<forall>l\<in>set block. follower l \<and> \<not> loops_at l" and "rest = [] \<or> \<not> follower (hd rest)"
  shows "nested_loop (pre @ block @ rest) (length pre) nested
           = Some (length pre + length block, foldl nested_step nested block)"
  using assms(1)
proof (induction block arbitrary: pre nested)
  case Nil
  show ?case
  proof (cases rest)
    case Nil
    then show ?thesis by (subst nested_loop.simps) simp
  next
    case (Cons r rs)
    then have "\<not> follower r" using assms(2) by simp
    then show ?thesis
      using Cons by (subst nested_loop.simps) (simp add: follower_def)
  qed
next
  case (Cons l block)
  have at: "(pre @ (l # block) @ rest) ! length pre = l" by simp
  have "nested_loop (pre @ (l # block) @ rest) (length pre) nested
          = nested_loop (pre @ (l # block) @ rest) (length pre + 1) (nested_step nested l)"
    using nested_loop_step[of "length pre" "pre @ (l # block) @ rest" nested] Cons.prems
    by (simp only: at) simp
  moreover have "nested_loop ((pre @ [l]) @ block @ rest) (length (pre @ [l])) (nested_step nested l)
          = Some (length (pre @ [l]) + length block, foldl nested_step (nested_step nested l) block)"
    using Cons.prems by (intro Cons.IH) simp
  ultimately show ?case by simp
qed

lemma nested_step_flat:
  "list_all (\<lambda>kv. is_str (snd kv)) d \<Longrightarrow> list_all (\<lambda>kv. is_str (snd kv)) (nested_step d l)"
  by (simp add: nested_step_def list_all_dict_set split: option.splits)

lemma foldl_nested_step_flat:
  "list_all (\<lambda>kv. is_str (snd kv)) d \<Longrightarrow> list_all (\<lambda>kv. is_str (snd kv)) (foldl nested_step d block)"
  by (induction block arbitrary: d) (simp_all add: nested_step_flat)

text \<open>C2, amended: wherever the main loop, outside a block scalar, meets a key with an
  empty value, it binds the key to a nested mapping built by one flat loop, not
  recursively. The followers of the key are the next lines up to the first non-blank
  line that starts neither with two spaces nor with a tab, or up to the end of the header,
  and the main loop resumes there. Taken in order, every follower that matches the
  nested-key pattern binds its key to its value as a string (quotes stripped, an empty
  value giving the empty string), however deep its indentation and replacing an earlier
  binding of the same key; blank followers and followers that do not match, such as lines
  starting with a dash, bind nothing. Every value of the nested mapping is a string. A
  header that consists of the key line and its followers alone parses to that one binding.
  Followers whose value starts with a dash are excluded.\<close>

theorem empty_valued_key_flat_mapping:
  assumes "\<not> in_multiline st"
    and "strip keyline \<noteq> []" and "\<not> startswith (strip keyline) ''#''"
    and "key_match (strip keyline) = Some (key, g)" and "strip g = []"
    and "\<forall>l\<in>set block. follower l \<and> \<not> loops_at l"
    and "rest = [] \<or> \<not> follower (hd rest)"
  shows "parse_loop (pre @ keyline # block @ rest) (length pre) st
           = parse_loop (pre @ keyline # block @ rest) (length pre + 1 + length block)
               (st\<lparr>result := dict_set key (Dict (nested_of block)) (result st)\<rparr>)
         \<and> list_all (\<lambda>kv. is_str (snd kv)) (nested_of block)
         \<and> (pre = [] \<and> rest = [] \<and> (\<forall>l\<in>set (keyline # block). nl \<notin> set l) \<longrightarrow>
              parse_simple_yaml (join nl (keyline # block)) = Some [(key, Dict (nested_of block))])"
proof -
  define lines where "lines = pre @ keyline # block @ rest"
  have at: "lines ! length pre = keyline" "length pre < length lines" by (simp_all add: lines_def)
  have nlp: "nested_loop lines (length pre + 1) [] = Some (length pre + 1 + length block, nested_of block)"
    using nested_loop_block[OF assms(6,7), of "pre @ [keyline]" "[]"]
    by (simp add: lines_def nested_of_def)
  have uq: "unquote [] = []" by (simp add: unquote_def startswith_def)
  have step: "parse_loop lines (length pre) s
           = parse_loop lines (length pre + 1 + length block)
               (s\<lparr>result := dict_set key (Dict (nested_of block)) (result s)\<rparr>)"
    if "\<not> in_multiline s" for s
    apply (subst parse_loop.simps)
    apply (simp only: at)
    apply (simp add: assms(2-5) that uq nlp del: One_nat_def)
    done
  have flat: "list_all (\<lambda>kv. is_str (snd kv)) (nested_of block)"
    unfolding nested_of_def by (rule foldl_nested_step_flat) simp
  have e2e: "parse_simple_yaml (join nl (keyline # block)) = Some [(key, Dict (nested_of block))]"
    if h: "pre = []" "rest = []" "\<forall>l\<in>set (keyline # block). nl \<notin> set l"
  proof -
    have sp: "split_on nl (join nl (keyline # block)) = keyline # block"
      using h(3) by (intro split_on_join) simp_all
    have l: "lines = keyline # block" using h(1,2) by (simp add: lines_def)
    have ni: "\<not> in_multiline init_state" by (simp add: in_multiline_def init_state_def)
    have "parse_loop lines 0 init_state
           = parse_loop lines (length lines)
               (init_state\<lparr>result := dict_set key (Dict (nested_of block)) (result init_state)\<rparr>)"
      using step[OF ni] h(1) l by simp
    also have "\<dots> = Some [(key, Dict (nested_of block))]"
      by (subst parse_loop.simps) (simp add: in_multiline_def init_state_def)
    finally show ?thesis by (simp add: parse_simple_yaml_def sp l)
  qed
  show ?thesis using step[OF assms(1)] flat e2e unfolding lines_def by blast
qed

theorem empty_valued_key_flat_mapping_witness:
  "parse_simple_yaml (join nl [''hooks:'', ''  PreToolUse:'', ''    - command: '' @ [dquote] @ ''x'' @ [dquote]])
     = Some [(''hooks'', Dict [(''PreToolUse'', Str [])])] \<and>
   parse_loop doc_nested_lines 1
       \<lparr>result = [(''name'', Str ''x'')], current_key = None, multiline_value = [], multiline_indent = 0\<rparr>
     = parse_loop doc_nested_lines 7
       \<lparr>result = [(''name'', Str ''x''), (''a'', Dict [(''b'', Str ''e''), (''c'', Str ''d'')])],
        current_key = None, multiline_value = [], multiline_indent = 0\<rparr> \<and>
   parse_simple_yaml (join nl doc_nested_lines)
     = Some [(''name'', Str ''x''), (''a'', Dict [(''b'', Str ''e''), (''c'', Str ''d'')]), (''z'', Str ''1'')]"
proof -
  let ?st = "\<lparr>result = [(''name'', Str ''x'')], current_key = None, multiline_value = [], multiline_indent = 0\<rparr>"
  let ?cmd = "''    - command: '' @ [dquote] @ ''x'' @ [dquote]"
  let ?block = "[''  b:'', ''    c: d'', [tab] @ ''b: '' @ [squote] @ ''e'' @ [squote], [], ''   - item'']"
  have h1: "\<not> in_multiline init_state" "strip ''hooks:'' \<noteq> []" "\<not> startswith (strip ''hooks:'') ''#''"
    "key_match (strip ''hooks:'') = Some (''hooks'', [])" "strip [] = []"
    "\<forall>l\<in>set [''  PreToolUse:'', ?cmd]. follower l \<and> \<not> loops_at l"
    "\<forall>l\<in>set [''hooks:'', ''  PreToolUse:'', ?cmd]. nl \<notin> set l"
    by code_simp+
  have n1: "nested_of [''  PreToolUse:'', ?cmd] = [(''PreToolUse'', Str [])]"
    by code_simp
  have a: "parse_simple_yaml (join nl [''hooks:'', ''  PreToolUse:'', ?cmd])
             = Some [(''hooks'', Dict [(''PreToolUse'', Str [])])]"
    using empty_valued_key_flat_mapping [of init_state "''hooks:''" "''hooks''" "[]"
            "[''  PreToolUse:'', ?cmd]" "[]" "[]"] h1 n1
    by simp
  have h2: "\<not> in_multiline ?st" "strip ''a:'' \<noteq> []" "\<not> startswith (strip ''a:'') ''#''"
    "key_match (strip ''a:'') = Some (''a'', [])"
    "\<forall>l\<in>set ?block. follower l \<and> \<not> loops_at l"
    "\<not> follower (hd [''z: 1''])"
    by code_simp+
  have n2: "nested_of ?block = [(''b'', Str ''e''), (''c'', Str ''d'')]"
    by code_simp
  have b: "parse_loop doc_nested_lines 1 ?st
     = parse_loop doc_nested_lines 7
       \<lparr>result = [(''name'', Str ''x''), (''a'', Dict [(''b'', Str ''e''), (''c'', Str ''d'')])],
        current_key = None, multiline_value = [], multiline_indent = 0\<rparr>"
    using empty_valued_key_flat_mapping [of ?st "''a:''" "''a''" "[]" ?block "[''z: 1'']" "[''name: x'']"]
      h1(5) h2 n2
    by (simp add: doc_nested_lines_def eval_nat_numeral)
  have c: "parse_simple_yaml (join nl doc_nested_lines)
     = Some [(''name'', Str ''x''), (''a'', Dict [(''b'', Str ''e''), (''c'', Str ''d'')]), (''z'', Str ''1'')]"
    by code_simp
  from a b c show ?thesis by blast
qed

section \<open>Indentation\<close>







end
